theory Spec2Isabelle
  imports Main "HOL-Library.Sublist" "HOL-Library.Multiset"
    "HOL-Library.Char_ord" "HOL-Library.List_Lexorder"
begin

section \<open>The URL checker of \<open>main.go\<close>\<close>

text \<open>
  A Go \<open>string\<close> is a sequence of bytes, here a \<open>string\<close> (a list of \<open>char\<close>, one
  per byte). With \<open>Char_ord\<close> and \<open>List_Lexorder\<close> the order \<open><\<close> on \<open>string\<close> is
  the bytewise lexicographic order, which is Go's \<open><\<close> on strings.
\<close>

subsection \<open>The record \<open>Result\<close>\<close>

text \<open>
  \<open>Contains *bool\<close> is \<open>bool option\<close> (\<open>nil\<close> is \<open>None\<close>). \<open>StatusCode\<close>, \<open>TTFBMs\<close> and
  \<open>SizeBytes\<close> are only ever assigned, never computed with, so they are \<open>int\<close>.
\<close>

record Result =
  URL :: string
  StatusCode :: int
  OK :: bool
  TTFBMs :: int
  SizeBytes :: int
  Contains :: "bool option"
  Error :: string

subsection \<open>What the network answers\<close>

text \<open>
  \<open>checkURL\<close> calls \<open>client.Get(url)\<close> and \<open>io.ReadAll(resp.Body)\<close>. What they return is
  the environment's choice and is an argument of the model:
  \<^item> \<open>GetErr e\<close>: \<open>client.Get\<close> returned an error whose \<open>Error()\<close> text is \<open>e\<close>;
  \<^item> \<open>Resp status elapsed rd\<close>: it returned a response with \<open>resp.StatusCode = status\<close>,
    \<open>time.Since(start).Milliseconds() = elapsed\<close> at that moment, and \<open>rd\<close> says how
    reading the body ends: \<open>BodyErr e\<close> (\<open>io.ReadAll\<close> failed with text \<open>e\<close>) or
    \<open>Body bytes\<close> (all bytes were read).
\<close>

datatype body_read = BodyErr string | Body string

datatype response = GetErr string | Resp int int body_read

subsection \<open>\<open>strings.HasPrefix\<close> and \<open>strings.Contains\<close>\<close>

text \<open>\<open>strings.HasPrefix(s, p)\<close> is \<open>prefix p s\<close> of \<open>HOL-Library.Sublist\<close>.\<close>

definition HasPrefix :: "string \<Rightarrow> string \<Rightarrow> bool" where
  "HasPrefix s p = prefix p s"

text \<open>
  \<open>strings.Contains(s, substr)\<close> is \<open>strings.Index(s, substr) >= 0\<close>: some position of
  \<open>s\<close>, the end included, starts with \<open>substr\<close>.
\<close>

fun strings_Contains :: "string \<Rightarrow> string \<Rightarrow> bool" where
  "strings_Contains [] substr = (substr = [])"
| "strings_Contains (c # cs) substr =
     (HasPrefix (c # cs) substr \<or> strings_Contains cs substr)"

subsection \<open>\<open>checkURL\<close>\<close>

definition checkURL :: "string \<Rightarrow> response \<Rightarrow> string \<Rightarrow> Result" where
  "checkURL url get contains =
     (let res = \<lparr>URL = url, StatusCode = 0, OK = False, TTFBMs = 0, SizeBytes = 0,
                 Contains = None, Error = ''''\<rparr>
      in case get of
           GetErr e \<Rightarrow> res\<lparr>Error := e\<rparr>
         | Resp status elapsed rd \<Rightarrow>
             (let res = res\<lparr>TTFBMs := elapsed\<rparr>;
                  res = res\<lparr>StatusCode := status\<rparr>;
                  res = res\<lparr>OK := (200 \<le> status \<and> status < 300)\<rparr>
              in case rd of
                   BodyErr e \<Rightarrow> res\<lparr>Error := e\<rparr>
                 | Body body \<Rightarrow>
                     (let res = res\<lparr>SizeBytes := int (length body)\<rparr>
                      in if contains \<noteq> ''''
                         then res\<lparr>Contains := Some (strings_Contains body contains)\<rparr>
                         else res)))"

subsection \<open>\<open>printTable\<close>\<close>

text \<open>
  \<open>fmt.Sprintf("%d", i)\<close> and \<open>fmt.Sprintf("%t", b)\<close>: the decimal digits of an integer, with a
  minus sign when it is negative, and the words \<open>true\<close> and \<open>false\<close>.
\<close>

definition digit_char :: "nat \<Rightarrow> char" where
  "digit_char d = ''0123456789'' ! d"

function fmt_nat :: "nat \<Rightarrow> string" where
  "fmt_nat n =
     (if n < 10 then [digit_char n] else fmt_nat (n div 10) @ [digit_char (n mod 10)])"
  by pat_completeness auto
termination
  by (relation "measure id") auto

declare fmt_nat.simps [simp del]

definition fmt_d :: "int \<Rightarrow> string" where
  "fmt_d i = (if i < 0 then ''-'' @ fmt_nat (nat (- i)) else fmt_nat (nat i))"

definition fmt_t :: "bool \<Rightarrow> string" where
  "fmt_t b = (if b then ''true'' else ''false'')"

definition tab :: string where
  "tab = [CHR 0x09]"

definition newline :: string where
  "newline = [CHR 0x0A]"

text \<open>
  The seven arguments of the \<open>Fprintf\<close> in the loop of \<open>printTable\<close>, after the \<open>%d\<close>
  conversions: the cells of one row.
\<close>

definition table_cells :: "Result \<Rightarrow> string list" where
  "table_cells r =
     (let status = fmt_d (StatusCode r);
          status = (if StatusCode r = 0 then ''-'' else status);
          ok = fmt_t (OK r);
          ok = (if Error r \<noteq> '''' then ''false'' else ok);
          containsVal = ''-'';
          containsVal = (case Contains r of None \<Rightarrow> containsVal | Some b \<Rightarrow> fmt_t b)
      in [URL r, status, ok, fmt_d (TTFBMs r), fmt_d (SizeBytes r), containsVal, Error r])"

text \<open>The format \<open>"%s\t%s\t%s\t%d\t%d\t%s\t%s\n"\<close>: the cells with tabs between them.\<close>

fun join_tabs :: "string list \<Rightarrow> string" where
  "join_tabs [] = ''''"
| "join_tabs [c] = c"
| "join_tabs (c # cs) = c @ tab @ join_tabs cs"

definition table_row :: "Result \<Rightarrow> string" where
  "table_row r = join_tabs (table_cells r) @ newline"

text \<open>The heading, as the bytes of its UTF-8 text, and the line of 80 dashes.\<close>

definition table_header :: "string list" where
  "table_header =
    [''URL'' @ tab @
       [CHR 0xD0, CHR 0xA1, CHR 0xD1, CHR 0x82, CHR 0xD0, CHR 0xB0, CHR 0xD1, CHR 0x82,
        CHR 0xD1, CHR 0x83, CHR 0xD1, CHR 0x81, CHR 0x09, CHR 0x4F, CHR 0x4B, CHR 0x09,
        CHR 0x54, CHR 0x54, CHR 0x46, CHR 0x42, CHR 0x28, CHR 0x6D, CHR 0x73, CHR 0x29,
        CHR 0x09, CHR 0xD0, CHR 0x91, CHR 0xD0, CHR 0xB0, CHR 0xD0, CHR 0xB9, CHR 0xD1,
        CHR 0x82, CHR 0xD1, CHR 0x8B, CHR 0x09, CHR 0xD0, CHR 0xA1, CHR 0xD0, CHR 0xBE,
        CHR 0xD0, CHR 0xB4, CHR 0xD0, CHR 0xB5, CHR 0xD1, CHR 0x80, CHR 0xD0, CHR 0xB6,
        CHR 0xD0, CHR 0xB8, CHR 0xD1, CHR 0x82, CHR 0x09, CHR 0xD0, CHR 0x9E, CHR 0xD1,
        CHR 0x88, CHR 0xD0, CHR 0xB8, CHR 0xD0, CHR 0xB1, CHR 0xD0, CHR 0xBA, CHR 0xD0,
        CHR 0xB0]
       @ newline,
     replicate 80 (CHR ''-'') @ newline]"

text \<open>
  \<open>printTable\<close> writes the heading and one row per element of \<open>results\<close>, in their order,
  to a \<open>tabwriter\<close>; the model is the list of lines written (the \<open>tabwriter\<close> then pads
  the cells). \<open>showContains\<close> is not used by the Go function either.
\<close>

definition data_rows :: "Result list \<Rightarrow> string list" where
  "data_rows results = map table_row results"

definition printTable :: "Result list \<Rightarrow> bool \<Rightarrow> string list" where
  "printTable results showContains = table_header @ data_rows results"

subsection \<open>The report of \<open>main\<close>\<close>



subsection \<open>\<open>strings.TrimSpace\<close>\<close>

text \<open>
  \<open>strings.TrimSpace\<close> removes the leading and trailing runes for which
  \<open>unicode.IsSpace\<close> holds. On the bytes of a string these are the UTF-8 encodings below:
  U+0009 to U+000D, U+0020, U+0085, U+00A0, U+1680, U+2000 to U+200A, U+2028, U+2029,
  U+202F, U+205F and U+3000.
\<close>

definition white_space_runes :: "string list" where
  "white_space_runes =
     [[CHR 0x09], [CHR 0x0A], [CHR 0x0B], [CHR 0x0C], [CHR 0x0D], [CHR 0x20],
      [CHR 0xC2, CHR 0x85], [CHR 0xC2, CHR 0xA0], [CHR 0xE1, CHR 0x9A, CHR 0x80],
      [CHR 0xE2, CHR 0x80, CHR 0x80], [CHR 0xE2, CHR 0x80, CHR 0x81],
      [CHR 0xE2, CHR 0x80, CHR 0x82], [CHR 0xE2, CHR 0x80, CHR 0x83],
      [CHR 0xE2, CHR 0x80, CHR 0x84], [CHR 0xE2, CHR 0x80, CHR 0x85],
      [CHR 0xE2, CHR 0x80, CHR 0x86], [CHR 0xE2, CHR 0x80, CHR 0x87],
      [CHR 0xE2, CHR 0x80, CHR 0x88], [CHR 0xE2, CHR 0x80, CHR 0x89],
      [CHR 0xE2, CHR 0x80, CHR 0x8A], [CHR 0xE2, CHR 0x80, CHR 0xA8],
      [CHR 0xE2, CHR 0x80, CHR 0xA9], [CHR 0xE2, CHR 0x80, CHR 0xAF],
      [CHR 0xE2, CHR 0x81, CHR 0x9F], [CHR 0xE3, CHR 0x80, CHR 0x80]]"

text \<open>The width in bytes of the white-space rune a string starts (ends) with; 0 if none.\<close>

definition leading_space :: "string \<Rightarrow> nat" where
  "leading_space s =
     (case find (\<lambda>w. prefix w s) white_space_runes of None \<Rightarrow> 0 | Some w \<Rightarrow> length w)"

definition trailing_space :: "string \<Rightarrow> nat" where
  "trailing_space s =
     (case find (\<lambda>w. suffix w s) white_space_runes of None \<Rightarrow> 0 | Some w \<Rightarrow> length w)"

function TrimLeft :: "string \<Rightarrow> string" where
  "TrimLeft s = (if leading_space s = 0 then s else TrimLeft (drop (leading_space s) s))"
  by pat_completeness auto
termination
proof (relation "measure length")
  fix s :: string
  assume "leading_space s \<noteq> 0"
  moreover from this have "s \<noteq> []"
    by (auto simp: leading_space_def white_space_runes_def)
  ultimately show "(drop (leading_space s) s, s) \<in> measure length"
    by simp
qed simp

declare TrimLeft.simps [simp del]

function TrimRight :: "string \<Rightarrow> string" where
  "TrimRight s =
     (if trailing_space s = 0 then s else TrimRight (take (length s - trailing_space s) s))"
  by pat_completeness auto
termination
proof (relation "measure length")
  fix s :: string
  assume "trailing_space s \<noteq> 0"
  moreover from this have "s \<noteq> []"
    by (auto simp: trailing_space_def white_space_runes_def)
  ultimately show "(take (length s - trailing_space s) s, s) \<in> measure length"
    by simp
qed simp

declare TrimRight.simps [simp del]

definition TrimSpace :: "string \<Rightarrow> string" where
  "TrimSpace s = TrimRight (TrimLeft s)"

subsection \<open>\<open>readURLs\<close>\<close>

text \<open>
  The file is the environment's: either \<open>os.Open\<close> fails (\<open>OpenErr e\<close>, with the error's
  text), or the scanner delivers the lines \<open>scanner.Text()\<close> one \<open>Scan()\<close> after the other
  and \<open>scanner.Err()\<close> is then \<open>nil\<close> (\<open>None\<close>) or an error (\<open>Some e\<close>).
\<close>

datatype file_source = OpenErr string | Opened "string list" "string option"

text \<open>The loop over \<open>scanner.Scan()\<close>, with the slice \<open>urls\<close> it appends to.\<close>

fun scan_loop :: "string list \<Rightarrow> string list \<Rightarrow> string list" where
  "scan_loop [] urls = urls"
| "scan_loop (text # rest) urls =
     (let url = TrimSpace text
      in if url \<noteq> '''' then scan_loop rest (urls @ [url]) else scan_loop rest urls)"

text \<open>The pair \<open>([]string, error)\<close> that \<open>readURLs\<close> returns; a \<open>nil\<close> slice is \<open>[]\<close>.\<close>

definition readURLs :: "file_source \<Rightarrow> string list \<times> string option" where
  "readURLs src =
     (case src of
        OpenErr e \<Rightarrow> ([], Some e)
      | Opened lines err \<Rightarrow> (scan_loop lines [], err))"

subsection \<open>The scheme loop of \<open>main\<close>\<close>

text \<open>
  \<open>for i, u := range urls\<close> with the assignment \<open>urls[i] = "https://" + u\<close>: \<open>i\<close> runs
  over the indices of the slice, which is updated in place.
\<close>

function scheme_loop :: "nat \<Rightarrow> string list \<Rightarrow> string list" where
  "scheme_loop i urls =
     (if i < length urls
      then (let u = urls ! i
            in if \<not> HasPrefix u ''http://'' \<and> \<not> HasPrefix u ''https://''
               then scheme_loop (i + 1) (urls[i := ''https://'' @ u])
               else scheme_loop (i + 1) urls)
      else urls)"
  by pat_completeness auto
termination
  by (relation "measure (\<lambda>(i, urls). length urls - i)") auto

declare scheme_loop.simps [simp del]

subsection \<open>The manual parse of \<open>--json\<close>\<close>

definition TrimPrefix :: "string \<Rightarrow> string \<Rightarrow> string" where
  "TrimPrefix s p = (if HasPrefix s p then drop (length p) s else s)"

text \<open>
  The loop \<open>for i, arg := range args\<close> with its three variables \<open>skip\<close>, \<open>jsonOutput\<close> and
  \<open>newArgs\<close>; the result is the pair of \<open>jsonOutput\<close> and \<open>newArgs\<close> after the loop.
\<close>

function json_loop ::
  "string list \<Rightarrow> nat \<Rightarrow> bool \<Rightarrow> string \<Rightarrow> string list \<Rightarrow> string \<times> string list" where
  "json_loop args i skip jsonOutput newArgs =
     (if i < length args
      then (let arg = args ! i
            in if skip then json_loop args (i + 1) False jsonOutput newArgs
               else if arg = ''--json''
               then (if i + 1 < length args \<and> \<not> HasPrefix (args ! (i + 1)) ''-''
                     then json_loop args (i + 1) True (args ! (i + 1)) newArgs
                     else json_loop args (i + 1) False ''results.json'' newArgs)
               else if HasPrefix arg ''--json=''
               then json_loop args (i + 1) False (TrimPrefix arg ''--json='') newArgs
               else json_loop args (i + 1) False jsonOutput (newArgs @ [arg]))
      else (jsonOutput, newArgs))"
  by pat_completeness auto
termination
  by (relation "measure (\<lambda>(args, i, skip, jsonOutput, newArgs). length args - i)") auto

declare json_loop.simps [simp del]

text \<open>
  \<open>main\<close> starts the loop with \<open>jsonOutput = ""\<close>, \<open>newArgs = []\<close> and \<open>skip = false\<close> on
  \<open>os.Args[1:]\<close>, and hands \<open>os.Args[0]\<close> followed by \<open>newArgs\<close> to \<open>flag.Parse\<close>.
\<close>

definition parse_json :: "string list \<Rightarrow> string \<times> string list" where
  "parse_json args = json_loop args 0 False '''' []"

definition flag_args :: "string list \<Rightarrow> string list" where
  "flag_args os_Args = hd os_Args # snd (parse_json (tl os_Args))"

text \<open>
  The same parse written after its description, for comparison with the loop: the options
  are read from left to right, \<open>--json\<close> takes the next argument with it when that one
  does not start with \<open>-\<close>, and everything else is kept.
\<close>

fun json_option :: "string list \<Rightarrow> string \<Rightarrow> string list \<Rightarrow> string \<times> string list" where
  "json_option [] path kept = (path, kept)"
| "json_option (arg # rest) path kept =
     (if arg = ''--json''
      then (case rest of
              [] \<Rightarrow> (''results.json'', kept)
            | nxt # rest' \<Rightarrow>
                if prefix ''-'' nxt then json_option rest ''results.json'' kept
                else json_option rest' nxt kept)
      else if prefix ''--json='' arg then json_option rest (drop 7 arg) kept
      else json_option rest path (kept @ [arg]))"

text \<open>
  The loader written after its description: trim every line, keep the non-empty ones, put
  \<open>https://\<close> in front of those that have neither scheme.
\<close>

definition with_scheme :: "string \<Rightarrow> string" where
  "with_scheme u = (if prefix ''http://'' u \<or> prefix ''https://'' u then u else ''https://'' @ u)"

definition retained :: "string list \<Rightarrow> string list" where
  "retained lines = filter (\<lambda>l. l \<noteq> '''') (map TrimSpace lines)"

subsection \<open>The worker pool of \<open>main\<close>\<close>

text \<open>
  The goroutines of \<open>main\<close> share two buffered channels and a \<open>WaitGroup\<close>. The model is
  the state of that system and one function per atomic action; which action comes next is
  the scheduler's choice, so a run is a list of actions and a statement about all runs is a
  statement about all such lists.

  A worker (lines 143 to 148) is either at the head of its \<open>range\<close> loop, waiting to
  receive from \<open>urlChan\<close>; or it holds the value of \<open>checkURL\<close> and is about to send it;
  or it has left the loop and called \<open>wg.Done()\<close>.
\<close>

datatype worker = Receiving | Sending Result | Returned

text \<open>
  \<open>main\<close> itself is in the loop of line 151 (\<open>Filling\<close>), or in the loop of line 162
  (\<open>Draining\<close>), or past it (\<open>Collected\<close>).
\<close>

datatype main_at = Filling | Draining | Collected

record pipeline =
  to_send :: "string list"
  urlChan :: "string list"
  urlChan_closed :: bool
  workers :: "worker list"
  resultChan :: "Result list"
  resultChan_closed :: bool
  results :: "Result list"
  main_at :: main_at
  capacity :: nat
  panicked :: bool

text \<open>
  The state when \<open>main\<close> reaches line 151. Both channels were made with capacity
  \<open>len(urls)\<close>. The loop of line 141 has started one worker for each \<open>i\<close> with
  \<open>0 \<le> i < *workers\<close>, none for a count of zero or less; a worker can do nothing before
  something is in \<open>urlChan\<close> or \<open>urlChan\<close> is closed, so each is still at its first receive.
\<close>

definition init_pipeline :: "string list \<Rightarrow> int \<Rightarrow> pipeline" where
  "init_pipeline urls n =
     \<lparr>to_send = urls, urlChan = [], urlChan_closed = False,
      workers = replicate (nat n) Receiving,
      resultChan = [], resultChan_closed = False, results = [],
      main_at = Filling, capacity = length urls, panicked = False\<rparr>"

text \<open>
  The atomic actions:
  \<^item> \<open>Main_send\<close>: \<open>urlChan <- u\<close> for the next \<open>u\<close> of \<open>urls\<close> (blocked while the buffer is full);
  \<^item> \<open>Main_close\<close>: the loop of line 151 is over, \<open>close(urlChan)\<close>, and the goroutine of
    line 156 is started;
  \<^item> \<open>Worker_receive i get\<close>: worker \<open>i\<close> receives a url and calls \<open>checkURL\<close>, to which the
    network answers \<open>get\<close> (blocked while the buffer is empty);
  \<^item> \<open>Worker_send i\<close>: worker \<open>i\<close> sends its result (blocked while the buffer is full; a send
    on a closed channel panics);
  \<^item> \<open>Worker_return i\<close>: worker \<open>i\<close> finds \<open>urlChan\<close> closed and empty, leaves the loop and
    calls \<open>wg.Done()\<close>;
  \<^item> \<open>Closer_close\<close>: \<open>wg.Wait()\<close> returns, every worker having called \<open>wg.Done()\<close>, and
    \<open>close(resultChan)\<close>;
  \<^item> \<open>Main_collect\<close>: \<open>main\<close> receives a result and appends it to \<open>results\<close>;
  \<^item> \<open>Main_finish\<close>: \<open>main\<close> finds \<open>resultChan\<close> closed and empty and leaves the loop.
  \<open>act\<close> returns \<open>None\<close> when the action is blocked or is not the next one of its goroutine.
\<close>

datatype action =
    Main_send
  | Main_close
  | Worker_receive nat response
  | Worker_send nat
  | Worker_return nat
  | Closer_close
  | Main_collect
  | Main_finish

fun act :: "string \<Rightarrow> action \<Rightarrow> pipeline \<Rightarrow> pipeline option" where
  "act contains Main_send s =
     (case to_send s of
        [] \<Rightarrow> None
      | u # us \<Rightarrow>
          if main_at s = Filling \<and> length (urlChan s) < capacity s
          then Some (s\<lparr>to_send := us, urlChan := urlChan s @ [u]\<rparr>)
          else None)"
| "act contains Main_close s =
     (if main_at s = Filling \<and> to_send s = []
      then Some (s\<lparr>urlChan_closed := True, main_at := Draining\<rparr>)
      else None)"
| "act contains (Worker_receive i get) s =
     (if i < length (workers s) \<and> workers s ! i = Receiving
      then (case urlChan s of
              [] \<Rightarrow> None
            | u # q \<Rightarrow>
                Some (s\<lparr>urlChan := q,
                        workers := (workers s)[i := Sending (checkURL u get contains)]\<rparr>))
      else None)"
| "act contains (Worker_send i) s =
     (if i < length (workers s)
      then (case workers s ! i of
              Sending r \<Rightarrow>
                if resultChan_closed s then Some (s\<lparr>panicked := True\<rparr>)
                else if length (resultChan s) < capacity s
                then Some (s\<lparr>resultChan := resultChan s @ [r],
                             workers := (workers s)[i := Receiving]\<rparr>)
                else None
            | _ \<Rightarrow> None)
      else None)"
| "act contains (Worker_return i) s =
     (if i < length (workers s) \<and> workers s ! i = Receiving
         \<and> urlChan s = [] \<and> urlChan_closed s
      then Some (s\<lparr>workers := (workers s)[i := Returned]\<rparr>)
      else None)"
| "act contains Closer_close s =
     (if main_at s = Draining \<and> \<not> resultChan_closed s
         \<and> list_all (\<lambda>w. w = Returned) (workers s)
      then Some (s\<lparr>resultChan_closed := True\<rparr>)
      else None)"
| "act contains Main_collect s =
     (if main_at s = Draining
      then (case resultChan s of
              [] \<Rightarrow> None
            | r # q \<Rightarrow> Some (s\<lparr>resultChan := q, results := results s @ [r]\<rparr>))
      else None)"
| "act contains Main_finish s =
     (if main_at s = Draining \<and> resultChan s = [] \<and> resultChan_closed s
      then Some (s\<lparr>main_at := Collected\<rparr>)
      else None)"

text \<open>A panic ends the program: nothing runs after it.\<close>

definition step :: "string \<Rightarrow> action \<Rightarrow> pipeline \<Rightarrow> pipeline option" where
  "step contains a s = (if panicked s then None else act contains a s)"

text \<open>A run: the actions of a schedule one after the other, \<open>None\<close> if one cannot be taken.\<close>

fun run :: "string \<Rightarrow> action list \<Rightarrow> pipeline \<Rightarrow> pipeline option" where
  "run contains [] s = Some s"
| "run contains (a # sched) s =
     (case step contains a s of None \<Rightarrow> None | Some s' \<Rightarrow> run contains sched s')"

subsection \<open>The start of \<open>main\<close>\<close>

text \<open>The two messages of lines 120 and 124, as the bytes of their UTF-8 text.\<close>

definition read_error_text :: string where
  "read_error_text =
     [CHR 0xD0, CHR 0x9E, CHR 0xD1, CHR 0x88, CHR 0xD0, CHR 0xB8, CHR 0xD0, CHR 0xB1,
      CHR 0xD0, CHR 0xBA, CHR 0xD0, CHR 0xB0, CHR 0x20, CHR 0xD1, CHR 0x87, CHR 0xD1,
      CHR 0x82, CHR 0xD0, CHR 0xB5, CHR 0xD0, CHR 0xBD, CHR 0xD0, CHR 0xB8, CHR 0xD1,
      CHR 0x8F, CHR 0x20, CHR 0xD1, CHR 0x84, CHR 0xD0, CHR 0xB0, CHR 0xD0, CHR 0xB9,
      CHR 0xD0, CHR 0xBB, CHR 0xD0, CHR 0xB0, CHR 0x3A, CHR 0x20]"

definition no_urls_text :: string where
  "no_urls_text =
     [CHR 0xD0, CHR 0xA4, CHR 0xD0, CHR 0xB0, CHR 0xD0, CHR 0xB9, CHR 0xD0, CHR 0xBB,
      CHR 0x20, CHR 0xD0, CHR 0xBD, CHR 0xD0, CHR 0xB5, CHR 0x20, CHR 0xD1, CHR 0x81,
      CHR 0xD0, CHR 0xBE, CHR 0xD0, CHR 0xB4, CHR 0xD0, CHR 0xB5, CHR 0xD1, CHR 0x80,
      CHR 0xD0, CHR 0xB6, CHR 0xD0, CHR 0xB8, CHR 0xD1, CHR 0x82, CHR 0x20, CHR 0x55,
      CHR 0x52, CHR 0x4C]"

text \<open>
  Lines 118 to 139 of \<open>main\<close>, for a file and a worker count: either the process ends
  there, \<open>Exit code text\<close> with \<open>text\<close> written to the standard error stream, or the worker
  pool starts on the targets. The network is only used by \<open>checkURL\<close>, that is by the
  action \<open>Worker_receive\<close> of a started pool.
\<close>

datatype startup = Exit int string | Run pipeline

definition main_start :: "file_source \<Rightarrow> int \<Rightarrow> startup" where
  "main_start src n =
     (case readURLs src of
        (urls, Some err) \<Rightarrow> Exit 1 (read_error_text @ err @ newline)
      | (urls, None) \<Rightarrow>
          if length urls = 0 then Exit 1 (no_urls_text @ newline)
          else Run (init_pipeline (scheme_loop 0 urls) n))"

subsection \<open>The sort of \<open>main\<close>\<close>



subsection \<open>Words for the statements about \<open>checkURL\<close>\<close>

text \<open>
  The body when it was read in full; whether a response came and reading its body failed;
  the status code of the response header (0 when no response came).
\<close>

fun body_of :: "response \<Rightarrow> string option" where
  "body_of (Resp status elapsed (Body body)) = Some body"
| "body_of _ = None"

fun body_failed :: "response \<Rightarrow> bool" where
  "body_failed (Resp status elapsed (BodyErr e)) = True"
| "body_failed _ = False"

fun header_status :: "response \<Rightarrow> int" where
  "header_status (Resp status elapsed rd) = status"
| "header_status (GetErr e) = 0"

text \<open>
  What \<open>net/http\<close> is expected to deliver: an error has a text that is not empty, and the
  status code of a response is not 0.
\<close>

fun well_formed :: "response \<Rightarrow> bool" where
  "well_formed (GetErr e) = (e \<noteq> '''')"
| "well_formed (Resp status elapsed (BodyErr e)) = (status \<noteq> 0 \<and> e \<noteq> '''')"
| "well_formed (Resp status elapsed (Body body)) = (status \<noteq> 0)"

subsection \<open>Words for the statements about the worker pool\<close>

text \<open>The target whose result a worker holds, and the targets held by all workers.\<close>

fun held :: "worker \<Rightarrow> string list" where
  "held (Sending r) = [URL r]"
| "held Receiving = []"
| "held Returned = []"

definition in_flight :: "worker list \<Rightarrow> string list" where
  "in_flight ws = concat (map held ws)"

text \<open>
  Where the targets are: not yet sent, in \<open>urlChan\<close>, held by a worker, in \<open>resultChan\<close>,
  or collected.
\<close>

definition accounted :: "pipeline \<Rightarrow> string multiset" where
  "accounted s =
     mset (to_send s) + mset (urlChan s) + mset (in_flight (workers s))
     + mset (map URL (resultChan s)) + mset (map URL (results s))"

text \<open>
  What holds in every state a run of the pool can reach from \<open>init_pipeline urls n\<close>:
  every target is in exactly one place; \<open>urlChan\<close> is closed exactly when \<open>main\<close> has left
  its first loop, with nothing left to send; a worker has returned only if \<open>urlChan\<close> is
  closed and empty; \<open>resultChan\<close> is closed only after all workers have returned; and
  \<open>main\<close> is past its second loop only if \<open>resultChan\<close> is closed and empty.
\<close>

definition invariant :: "string list \<Rightarrow> pipeline \<Rightarrow> bool" where
  "invariant urls s \<longleftrightarrow>
     capacity s = length urls
     \<and> accounted s = mset urls
     \<and> (urlChan_closed s \<longleftrightarrow> main_at s \<noteq> Filling)
     \<and> (main_at s \<noteq> Filling \<longrightarrow> to_send s = [])
     \<and> (Returned \<in> set (workers s) \<longrightarrow> urlChan_closed s \<and> urlChan s = [])
     \<and> (resultChan_closed s \<longrightarrow>
          list_all (\<lambda>w. w = Returned) (workers s) \<and> main_at s \<noteq> Filling)
     \<and> (main_at s = Collected \<longrightarrow> resultChan_closed s \<and> resultChan s = [])
     \<and> \<not> panicked s"

text \<open>
  The number of actions still to come: a target not yet sent has four ahead of it (send,
  receive, send, collect), and so on; a worker that holds a result has its send and its
  return, a waiting one its return.
\<close>

fun busy :: "worker \<Rightarrow> nat" where
  "busy Receiving = 1"
| "busy (Sending r) = 3"
| "busy Returned = 0"

definition steps_left :: "pipeline \<Rightarrow> nat" where
  "steps_left s =
     4 * length (to_send s) + 3 * length (urlChan s) + sum_list (map busy (workers s))
     + length (resultChan s)
     + (if resultChan_closed s then 0 else 1)
     + (case main_at s of Filling \<Rightarrow> 2 | Draining \<Rightarrow> 1 | Collected \<Rightarrow> 0)
     + (if panicked s then 0 else 1)"

section \<open>Properties of the checker\<close>

lemma strings_Contains_sublist: "strings_Contains s sub \<longleftrightarrow> sublist sub s"
  by (induction s) (auto simp: HasPrefix_def sublist_Cons_right)

text \<open>The three ways through \<open>checkURL\<close> and the record each returns.\<close>

lemma checkURL_GetErr:
  "checkURL u (GetErr e) c =
     \<lparr>URL = u, StatusCode = 0, OK = False, TTFBMs = 0, SizeBytes = 0, Contains = None,
      Error = e\<rparr>"
  by (simp add: checkURL_def)

lemma checkURL_BodyErr:
  "checkURL u (Resp st t (BodyErr e)) c =
     \<lparr>URL = u, StatusCode = st, OK = (200 \<le> st \<and> st < 300), TTFBMs = t, SizeBytes = 0,
      Contains = None, Error = e\<rparr>"
  by (simp add: checkURL_def)

lemma checkURL_Body:
  "checkURL u (Resp st t (Body b)) c =
     \<lparr>URL = u, StatusCode = st, OK = (200 \<le> st \<and> st < 300), TTFBMs = t,
      SizeBytes = int (length b),
      Contains = (if c \<noteq> '''' then Some (strings_Contains b c) else None), Error = ''''\<rparr>"
  by (simp add: checkURL_def Let_def)

lemmas checkURL_paths = checkURL_GetErr checkURL_BodyErr checkURL_Body

lemma URL_checkURL [simp]: "URL (checkURL u get c) = u"
  by (induction get rule: well_formed.induct) (simp_all add: checkURL_paths)

text \<open>
  Claim C2, as stated: \<open>Error\<close> is non-empty if and only if \<open>StatusCode\<close> is 0. It fails when
  the response header arrived with status 200 and reading the body failed: the record has
  an error text and the status 200.
\<close>

theorem checkURL_error_iff_status0_counterexample:
  "Error (checkURL ''https://a'' (Resp 200 5 (BodyErr ''unexpected EOF'')) '''') \<noteq> ''''
   \<and> StatusCode (checkURL ''https://a'' (Resp 200 5 (BodyErr ''unexpected EOF'')) '''') \<noteq> 0"
  by (simp add: checkURL_paths)

text \<open>
  Claim C2, amended: when errors have a non-empty text and a response has a status other
  than 0, \<open>Error\<close> is non-empty if and only if \<open>StatusCode\<close> is 0 or reading the body failed;
  and after a failed body read \<open>StatusCode\<close> is the status of the response header, not 0.
\<close>

theorem checkURL_error_iff_status0_or_body_failed:
  assumes "well_formed get"
  shows "(Error (checkURL u get c) \<noteq> '''' \<longleftrightarrow>
            StatusCode (checkURL u get c) = 0 \<or> body_failed get)
         \<and> (body_failed get \<longrightarrow>
              StatusCode (checkURL u get c) = header_status get
              \<and> StatusCode (checkURL u get c) \<noteq> 0)"
  using assms by (induction get rule: well_formed.induct) (simp_all add: checkURL_paths)

theorem checkURL_error_iff_status0_or_body_failed_witness:
  "well_formed (GetErr ''no such host'')
   \<and> Error (checkURL ''https://a'' (GetErr ''no such host'') '''') \<noteq> ''''
   \<and> StatusCode (checkURL ''https://a'' (GetErr ''no such host'') '''') = 0
   \<and> well_formed (Resp 503 7 (BodyErr ''unexpected EOF''))
   \<and> StatusCode (checkURL ''https://a'' (Resp 503 7 (BodyErr ''unexpected EOF'')) '''') = 503"
proof -
  have a: "well_formed (GetErr ''no such host'')"
    and b: "well_formed (Resp 503 7 (BodyErr ''unexpected EOF''))"
    by simp_all
  from checkURL_error_iff_status0_or_body_failed [OF a, of "''https://a''" "''''"]
    checkURL_error_iff_status0_or_body_failed [OF b, of "''https://a''" "''''"] a b
  show ?thesis
    by (simp add: checkURL_paths)
qed

text \<open>
  Claim C3: a record with a non-empty \<open>Error\<close> has \<open>OK\<close> false, also as stored. The code
  does not do that: with status 200 in the header and a failed body read, the stored
  record has \<open>OK\<close> true and an error text, while the row \<open>printTable\<close> writes for it says
  \<open>false\<close>.
\<close>

theorem checkURL_body_failure_leaves_OK_true:
  "OK (checkURL ''https://a'' (Resp 200 5 (BodyErr ''unexpected EOF'')) '''')
   \<and> Error (checkURL ''https://a'' (Resp 200 5 (BodyErr ''unexpected EOF'')) '''')
       = ''unexpected EOF''
   \<and> table_cells (checkURL ''https://a'' (Resp 200 5 (BodyErr ''unexpected EOF'')) '''') ! 2
       = ''false''"
  by (simp add: checkURL_paths table_cells_def fmt_t_def)

text \<open>
  Claim C4: after a failed body read the record has the error text, \<open>OK\<close> false, size 0, the
  status of the header, and no \<open>Contains\<close>. The code returns all of that except \<open>OK\<close>, which
  stays true for a status from 200 to 299: the record for status 200.
\<close>

theorem checkURL_body_failure_record:
  "checkURL ''https://a'' (Resp 200 5 (BodyErr ''unexpected EOF'')) ''a'' =
     \<lparr>URL = ''https://a'', StatusCode = 200, OK = True, TTFBMs = 5, SizeBytes = 0,
      Contains = None, Error = ''unexpected EOF''\<rparr>"
  by (simp add: checkURL_paths)

text \<open>
  Claim C7: \<open>Contains\<close> is present if and only if the substring searched for is not empty
  and the body was read in full; when present it is true if and only if the substring
  occurs somewhere in the body; after a transport failure it is absent.
\<close>

theorem checkURL_Contains_present_iff:
  "(Contains (checkURL u get c) \<noteq> None \<longleftrightarrow> c \<noteq> '''' \<and> body_of get \<noteq> None)
   \<and> (\<forall>v. Contains (checkURL u get c) = Some v \<longrightarrow>
         (v \<longleftrightarrow> (\<exists>body before after.
                 body_of get = Some body \<and> body = before @ c @ after)))
   \<and> Contains (checkURL u (GetErr e) c) = None"
  by (induction get rule: body_of.induct)
    (auto simp: checkURL_paths strings_Contains_sublist sublist_def)

theorem checkURL_Contains_present_iff_witness:
  "Contains (checkURL ''https://a'' (Resp 200 5 (Body ''hello world'')) ''lo w'') = Some True"
proof -
  let ?r = "checkURL ''https://a'' (Resp 200 5 (Body ''hello world'')) ''lo w''"
  note t = checkURL_Contains_present_iff
    [of "''https://a''" "Resp 200 5 (Body ''hello world'')" "''lo w''"]
  from t have "Contains ?r \<noteq> None"
    by simp
  then obtain v where v: "Contains ?r = Some v"
    by blast
  have "''hello world'' = ''hel'' @ ''lo w'' @ ''orld''"
    by simp
  with t v have v
    by (metis body_of.simps(1))
  with v show ?thesis
    by simp
qed

section \<open>Properties of the loader and of the start of \<open>main\<close>\<close>

lemma scan_loop_retained: "scan_loop lines urls = urls @ retained lines"
  by (induction lines arbitrary: urls) (simp_all add: retained_def Let_def)

lemma scheme_loop_map:
  "i \<le> length urls \<Longrightarrow> scheme_loop i urls = take i urls @ map with_scheme (drop i urls)"
proof (induction i urls rule: scheme_loop.induct)
  case (1 i urls)
  show ?case
  proof (cases "i < length urls")
    case False
    with "1.prems" show ?thesis by (subst scheme_loop.simps) simp
  next
    case True
    let ?u = "urls ! i"
    have d: "drop i urls = ?u # drop (Suc i) urls"
      using True by (simp add: Cons_nth_drop_Suc)
    show ?thesis
    proof (cases "\<not> HasPrefix ?u ''http://'' \<and> \<not> HasPrefix ?u ''https://''")
      case a: True
      have "scheme_loop i urls = scheme_loop (i + 1) (urls[i := ''https://'' @ ?u])"
        using True a by (subst scheme_loop.simps) (simp add: Let_def)
      also have "\<dots> = take (i + 1) (urls[i := ''https://'' @ ?u])
            @ map with_scheme (drop (i + 1) (urls[i := ''https://'' @ ?u]))"
        using True a by (intro "1.IH"(1)) simp_all
      also have "\<dots> = take i urls @ map with_scheme (drop i urls)"
        using True a by (simp add: d take_Suc_conv_app_nth with_scheme_def HasPrefix_def)
      finally show ?thesis .
    next
      case b: False
      have "scheme_loop i urls = scheme_loop (i + 1) urls"
        using True b by (subst scheme_loop.simps) (auto simp add: Let_def)
      also have "\<dots> = take (i + 1) urls @ map with_scheme (drop (i + 1) urls)"
        using True b by (intro "1.IH"(2)) auto
      also have "\<dots> = take i urls @ map with_scheme (drop i urls)"
        using True b by (auto simp add: d take_Suc_conv_app_nth with_scheme_def HasPrefix_def)
      finally show ?thesis .
    qed
  qed
qed

lemma leading_space_prefix: "leading_space s \<noteq> 0 \<Longrightarrow> prefix s t \<Longrightarrow> leading_space t \<noteq> 0"
proof -
  assume a: "leading_space s \<noteq> 0" and p: "prefix s t"
  from a obtain w where w: "find (\<lambda>w. prefix w s) white_space_runes = Some w"
    by (auto simp: leading_space_def split: option.splits)
  then have "w \<in> set white_space_runes" "prefix w s"
    by (auto simp: find_Some_iff)
  with p have "\<exists>w\<in>set white_space_runes. prefix w t"
    by (meson prefix_order.order_trans)
  then obtain w' where w': "find (\<lambda>w. prefix w t) white_space_runes = Some w'"
    by (cases "find (\<lambda>w. prefix w t) white_space_runes") (auto simp: find_None_iff)
  then have "w' \<in> set white_space_runes"
    by (auto simp: find_Some_iff)
  then have "length w' \<noteq> 0"
    by (auto simp: white_space_runes_def)
  with w' show ?thesis
    by (simp add: leading_space_def)
qed

lemma TrimLeft_no_leading: "leading_space (TrimLeft s) = 0"
  by (induction s rule: TrimLeft.induct) (subst TrimLeft.simps, simp)

lemma TrimRight_no_trailing: "trailing_space (TrimRight s) = 0"
  by (induction s rule: TrimRight.induct) (subst TrimRight.simps, simp)

lemma TrimRight_prefix: "prefix (TrimRight s) s"
proof (induction s rule: TrimRight.induct)
  case (1 s)
  show ?case
  proof (cases "trailing_space s = 0")
    case True then show ?thesis by (subst TrimRight.simps) simp
  next
    case False
    with 1 have "prefix (TrimRight (take (length s - trailing_space s) s)) (take (length s - trailing_space s) s)" by simp
    moreover have "prefix (take (length s - trailing_space s) s) s" by (rule take_is_prefix)
    ultimately have "prefix (TrimRight (take (length s - trailing_space s) s)) s"
      by (rule prefix_order.order_trans)
    with False show ?thesis by (subst TrimRight.simps) simp
  qed
qed

lemma TrimLeft_suffix: "suffix (TrimLeft s) s"
proof (induction s rule: TrimLeft.induct)
  case (1 s)
  show ?case
  proof (cases "leading_space s = 0")
    case True then show ?thesis by (subst TrimLeft.simps) simp
  next
    case False
    with 1 have "suffix (TrimLeft (drop (leading_space s) s)) (drop (leading_space s) s)" by simp
    moreover have "suffix (drop (leading_space s) s) s" by (rule suffix_drop)
    ultimately have "suffix (TrimLeft (drop (leading_space s) s)) s"
      by (rule suffix_order.order_trans)
    with False show ?thesis by (subst TrimLeft.simps) simp
  qed
qed

lemma TrimSpace_trimmed:
  "leading_space (TrimSpace l) = 0 \<and> trailing_space (TrimSpace l) = 0 \<and> sublist (TrimSpace l) l"
proof -
  have "leading_space (TrimSpace l) = 0"
    using leading_space_prefix [OF _ TrimRight_prefix [of "TrimLeft l"]] TrimLeft_no_leading [of l]
    unfolding TrimSpace_def by blast
  moreover have "sublist (TrimSpace l) l"
    unfolding TrimSpace_def
    using TrimRight_prefix [of "TrimLeft l"] TrimLeft_suffix [of l]
    by (meson prefix_imp_sublist suffix_imp_sublist sublist_order.order_trans)
  ultimately show ?thesis
    by (simp add: TrimSpace_def TrimRight_no_trailing)
qed

lemma json_loop_option:
  "i \<le> length args \<Longrightarrow> json_loop args i skip path kept =
     json_option (drop (if skip then i + 1 else i) args) path kept"
proof (induction args i skip path kept rule: json_loop.induct)
  case (1 args i skip path kept)
  show ?case
  proof (cases "i < length args")
    case False
    with "1.prems" show ?thesis by (subst json_loop.simps) simp
  next
    case True
    let ?arg = "args ! i"
    have d: "drop i args = ?arg # drop (Suc i) args"
      using True by (simp add: Cons_nth_drop_Suc)
    from True have le: "i + 1 \<le> length args" by simp
    show ?thesis
    proof (cases skip)
      case s: True
      have "json_loop args i skip path kept = json_loop args (i + 1) False path kept"
        using True s by (subst json_loop.simps) simp
      also have "\<dots> = json_option (drop (i + 1) args) path kept"
        using "1.IH"(1) [OF True refl s le] by simp
      finally show ?thesis using s by simp
    next
      case ns: False
      show ?thesis
      proof (cases "?arg = ''--json''")
        case j: True
        show ?thesis
        proof (cases "i + 1 < length args \<and> \<not> HasPrefix (args ! (i + 1)) ''-''")
          case c: True
          then have d2: "drop (Suc i) args = args ! (i + 1) # drop (Suc (Suc i)) args"
            by (simp add: Cons_nth_drop_Suc)
          have "json_loop args i skip path kept = json_loop args (i + 1) True (args ! (i + 1)) kept"
            using True ns j c by (subst json_loop.simps) simp
          also have "\<dots> = json_option (drop (i + 1 + 1) args) (args ! (i + 1)) kept"
            using "1.IH"(2) [OF True refl ns j c le] by simp
          also have "\<dots> = json_option (drop i args) path kept"
            using j c by (simp add: d d2 HasPrefix_def)
          finally show ?thesis using ns by simp
        next
          case c: False
          have "json_loop args i skip path kept = json_loop args (i + 1) False ''results.json'' kept"
            using True ns j c by (subst json_loop.simps) auto
          also have "\<dots> = json_option (drop (i + 1) args) ''results.json'' kept"
            using "1.IH"(3) [OF True refl ns j c le] by simp
          also have "\<dots> = json_option (drop i args) path kept"
          proof (cases "i + 1 < length args")
            case True
            then have d2: "drop (Suc i) args = args ! (i + 1) # drop (Suc (Suc i)) args"
              by (simp add: Cons_nth_drop_Suc)
            from True c have "prefix ''-'' (args ! (i + 1))"
              by (simp add: HasPrefix_def)
            then show ?thesis using j by (simp add: d d2)
          next
            case False
            then show ?thesis using j by (simp add: d)
          qed
          finally show ?thesis using ns by simp
        qed
      next
        case nj: False
        show ?thesis
        proof (cases "HasPrefix ?arg ''--json=''")
          case e: True
          have "json_loop args i skip path kept =
                  json_loop args (i + 1) False (TrimPrefix ?arg ''--json='') kept"
            using True ns nj e by (subst json_loop.simps) simp
          also have "\<dots> = json_option (drop (i + 1) args) (TrimPrefix ?arg ''--json='') kept"
            using "1.IH"(4) [OF True refl ns nj e le] by simp
          also have "\<dots> = json_option (drop i args) path kept"
            using nj e by (simp add: d HasPrefix_def TrimPrefix_def eval_nat_numeral)
          finally show ?thesis using ns by simp
        next
          case e: False
          have "json_loop args i skip path kept =
                  json_loop args (i + 1) False path (kept @ [?arg])"
            using True ns nj e by (subst json_loop.simps) simp
          also have "\<dots> = json_option (drop (i + 1) args) path (kept @ [?arg])"
            using "1.IH"(5) [OF True refl ns nj e le] by simp
          also have "\<dots> = json_option (drop i args) path kept"
            using nj e by (simp add: d HasPrefix_def)
          finally show ?thesis using ns by simp
        qed
      qed
    qed
  qed
qed

lemma parse_json_option: "parse_json args = json_option args '''' []"
  using json_loop_option [of 0 args False] by (simp add: parse_json_def)

lemma readURLs_Opened: "readURLs (Opened lines err) = (retained lines, err)"
  by (simp add: readURLs_def scan_loop_retained)

lemma scheme_loop_with_scheme: "scheme_loop 0 urls = map with_scheme urls"
  using scheme_loop_map [of 0 urls] by simp

text \<open>
  Claim C6: every line is trimmed of the white space around it; the lines that are then
  empty are dropped; a kept line that starts with neither \<open>http://\<close> nor \<open>https://\<close> gets
  \<open>https://\<close> in front, the others stay as they are; nothing is removed as a duplicate and
  the order of the lines is kept. So the targets the pool starts on are
  \<open>map with_scheme (retained lines)\<close>, and a trimmed line is a piece of the line that
  neither starts nor ends with a white-space rune.
\<close>

theorem loader_targets:
  "fst (readURLs (Opened lines err)) = retained lines
   \<and> scheme_loop 0 urls = map with_scheme urls
   \<and> length (scheme_loop 0 urls) = length urls
   \<and> (retained lines \<noteq> [] \<longrightarrow>
        main_start (Opened lines None) n =
          Run (init_pipeline (map with_scheme (retained lines)) n))
   \<and> leading_space (TrimSpace l) = 0 \<and> trailing_space (TrimSpace l) = 0
   \<and> sublist (TrimSpace l) l"
  by (simp add: readURLs_Opened scheme_loop_with_scheme main_start_def TrimSpace_trimmed)

theorem loader_targets_witness:
  "main_start
     (Opened ['' example.com '', ''   '', ''http://b'', ''https://c/d '', ''example.com''] None) 5
   = Run (init_pipeline
       [''https://example.com'', ''http://b'', ''https://c/d'', ''https://example.com''] 5)"
proof -
  let ?lines = "['' example.com '', ''   '', ''http://b'', ''https://c/d '', ''example.com'']"
  have r: "retained ?lines = [''example.com'', ''http://b'', ''https://c/d'', ''example.com'']"
    by code_simp
  then have "retained ?lines \<noteq> []"
    by simp
  with loader_targets [of ?lines None "[]" 5 "[]"] show ?thesis
    by (simp add: r with_scheme_def)
qed

text \<open>
  Claim C8: when the file cannot be opened or read, or no line is kept, \<open>main\<close> ends with
  exit status 1 and never starts the worker pool (so \<open>checkURL\<close> is never called); the
  message for an empty list differs from the message for an unreadable file, whatever the
  error text. A pool is started only for a readable file with a kept line.
\<close>

theorem main_start_exits_before_pool:
  "main_start (OpenErr e) n = Exit 1 (read_error_text @ e @ newline)
   \<and> main_start (Opened lines (Some e)) n = Exit 1 (read_error_text @ e @ newline)
   \<and> (retained lines = [] \<longrightarrow>
        main_start (Opened lines None) n = Exit 1 (no_urls_text @ newline))
   \<and> read_error_text @ e @ newline \<noteq> no_urls_text @ newline
   \<and> (\<forall>p. main_start src n = Run p \<longrightarrow>
         snd (readURLs src) = None \<and> fst (readURLs src) \<noteq> [])"
proof -
  have "main_start (OpenErr e) n = Exit 1 (read_error_text @ e @ newline)"
    by (simp add: main_start_def readURLs_def)
  moreover have "main_start (Opened lines (Some e)) n = Exit 1 (read_error_text @ e @ newline)"
    by (simp add: main_start_def readURLs_Opened)
  moreover have "retained lines = [] \<longrightarrow>
      main_start (Opened lines None) n = Exit 1 (no_urls_text @ newline)"
    by (simp add: main_start_def readURLs_Opened)
  moreover have "read_error_text @ e @ newline \<noteq> no_urls_text @ newline"
    by (simp add: read_error_text_def no_urls_text_def)
  moreover have "\<forall>p. main_start src n = Run p \<longrightarrow>
         snd (readURLs src) = None \<and> fst (readURLs src) \<noteq> []"
    by (auto simp: main_start_def split: prod.splits option.splits if_splits)
  ultimately show ?thesis
    by blast
qed

theorem main_start_exits_before_pool_witness:
  "main_start (Opened ['''', ''   '', [CHR 0x09]] None) 5 = Exit 1 (no_urls_text @ newline)"
proof -
  have "retained ['''', ''   '', [CHR 0x09]] = []"
    by code_simp
  with main_start_exits_before_pool [of "''''" 5 "['''', ''   '', [CHR 0x09]]" "OpenErr ''''"]
  show ?thesis
    by simp
qed

lemma json_option_plain:
  "\<forall>a\<in>set args. a \<noteq> ''--json'' \<and> \<not> prefix ''--json='' a \<Longrightarrow>
     json_option args path kept = (path, kept @ args)"
  by (induction args arbitrary: kept) simp_all

text \<open>
  Claim C10: the loop over the arguments computes what the description says
  (\<open>json_option\<close>): \<open>--json\<close> followed by an argument that does not start with \<open>-\<close> takes it
  as the path and both are removed; \<open>--json\<close> at the end or before an argument starting
  with \<open>-\<close> selects \<open>results.json\<close>; \<open>--json=PATH\<close> selects \<open>PATH\<close>; every other argument
  goes on to the flag parser unchanged.
\<close>

theorem parse_json_as_described:
  "parse_json args = json_option args '''' []
   \<and> flag_args (prog # args) = prog # snd (json_option args '''' [])
   \<and> (\<not> prefix ''-'' nxt \<longrightarrow>
        json_option (''--json'' # nxt # rest) path kept = json_option rest nxt kept)
   \<and> (prefix ''-'' nxt \<longrightarrow>
        json_option (''--json'' # nxt # rest) path kept
          = json_option (nxt # rest) ''results.json'' kept)
   \<and> json_option [''--json''] path kept = (''results.json'', kept)
   \<and> json_option ((''--json='' @ p) # rest) path kept = json_option rest p kept
   \<and> (arg \<noteq> ''--json'' \<and> \<not> prefix ''--json='' arg \<longrightarrow>
        json_option (arg # rest) path kept = json_option rest path (kept @ [arg]))
   \<and> ((\<forall>a\<in>set args. a \<noteq> ''--json'' \<and> \<not> prefix ''--json='' a) \<longrightarrow>
        parse_json args = ('''', args))"
  by (simp add: parse_json_option flag_args_def json_option_plain)

theorem parse_json_as_described_witness:
  "parse_json [''--workers'', ''3'', ''--json'', ''out.json'', ''--file'', ''u.txt'']
     = (''out.json'', [''--workers'', ''3'', ''--file'', ''u.txt''])
   \<and> parse_json [''--json'', ''--file'', ''u.txt''] = (''results.json'', [''--file'', ''u.txt''])
   \<and> parse_json [''--file'', ''u.txt'', ''--json''] = (''results.json'', [''--file'', ''u.txt''])
   \<and> parse_json [''--json=o.json'', ''--file'', ''u.txt''] = (''o.json'', [''--file'', ''u.txt''])
   \<and> parse_json [''--file'', ''u.txt''] = ('''', [''--file'', ''u.txt''])"
proof -
  note t = parse_json_as_described
  have a: "\<forall>a\<in>set [''--file'', ''u.txt'']. a \<noteq> ''--json'' \<and> \<not> prefix ''--json='' a"
    by simp
  have "parse_json [''--file'', ''u.txt''] = ('''', [''--file'', ''u.txt''])"
    using t [of "[''--file'', ''u.txt'']"] a by blast
  moreover have "parse_json [''--workers'', ''3'', ''--json'', ''out.json'', ''--file'', ''u.txt'']
     = (''out.json'', [''--workers'', ''3'', ''--file'', ''u.txt''])"
    using t [of "[''--workers'', ''3'', ''--json'', ''out.json'', ''--file'', ''u.txt'']"]
    by simp
  moreover have "parse_json [''--json'', ''--file'', ''u.txt''] = (''results.json'', [''--file'', ''u.txt''])"
    using t [of "[''--json'', ''--file'', ''u.txt'']"] by simp
  moreover have "parse_json [''--file'', ''u.txt'', ''--json''] = (''results.json'', [''--file'', ''u.txt''])"
    using t [of "[''--file'', ''u.txt'', ''--json'']"] by simp
  moreover have "parse_json [''--json=o.json'', ''--file'', ''u.txt''] = (''o.json'', [''--file'', ''u.txt''])"
    using t [of "[''--json=o.json'', ''--file'', ''u.txt'']"] by simp
  ultimately show ?thesis
    by simp
qed

section \<open>Properties of the sorted report\<close>



lemma hd_table_cells: "hd (table_cells r) = URL r"
  by (simp add: table_cells_def Let_def)





section \<open>Properties of the worker pool\<close>

lemma sum_list_busy_update:
  "i < length ws \<Longrightarrow>
     sum_list (map busy (ws[i := w])) + busy (ws ! i) = sum_list (map busy ws) + busy w"
  by (induction ws arbitrary: i) (auto split: nat.splits)

lemma in_flight_update:
  "i < length ws \<Longrightarrow>
     mset (in_flight (ws[i := w])) + mset (held (ws ! i)) = mset (in_flight ws) + mset (held w)"
  unfolding in_flight_def
  by (induction ws arbitrary: i) (auto split: nat.splits)

lemma step_steps_left:
  assumes "step c a s = Some s'"
  shows "steps_left s = Suc (steps_left s')"
proof (cases a)
  case Main_send
  with assms show ?thesis
    by (auto simp: step_def steps_left_def split: if_splits list.splits)
next
  case Main_close
  with assms show ?thesis
    by (auto simp: step_def steps_left_def split: if_splits)
next
  case (Worker_receive i get)
  with assms show ?thesis
    using sum_list_busy_update [of i "workers s" "Sending (checkURL (hd (urlChan s)) get c)"]
    by (auto simp: step_def steps_left_def split: if_splits list.splits)
next
  case (Worker_send i)
  with assms show ?thesis
    using sum_list_busy_update [of i "workers s" Receiving]
    by (auto simp: step_def steps_left_def split: if_splits worker.splits)
next
  case (Worker_return i)
  with assms show ?thesis
    using sum_list_busy_update [of i "workers s" Returned]
    by (auto simp: step_def steps_left_def split: if_splits)
next
  case Closer_close
  with assms show ?thesis
    by (auto simp: step_def steps_left_def split: if_splits)
next
  case Main_collect
  with assms show ?thesis
    by (auto simp: step_def steps_left_def split: if_splits list.splits)
next
  case Main_finish
  with assms show ?thesis
    by (auto simp: step_def steps_left_def split: if_splits)
qed

lemma run_steps_left:
  "run c sched s = Some s' \<Longrightarrow> steps_left s = length sched + steps_left s'"
  by (induction sched arbitrary: s) (auto split: option.splits dest: step_steps_left)

lemma invariant_init: "invariant urls (init_pipeline urls n)"
  by (simp add: invariant_def init_pipeline_def accounted_def in_flight_def list_all_iff)

lemma Returned_update:
  "w \<noteq> Returned \<Longrightarrow> Returned \<in> set (ws[i := w]) \<Longrightarrow> Returned \<in> set ws"
  using set_update_subset_insert [of ws i w] by auto

lemma all_Returned_nth:
  "list_all (\<lambda>w. w = Returned) ws \<Longrightarrow> i < length ws \<Longrightarrow> ws ! i = Returned"
  by (simp add: list_all_length)

lemma invariantI:
  assumes "capacity s = length urls"
    and "accounted s = mset urls"
    and "urlChan_closed s \<longleftrightarrow> main_at s \<noteq> Filling"
    and "main_at s \<noteq> Filling \<Longrightarrow> to_send s = []"
    and "Returned \<in> set (workers s) \<Longrightarrow> urlChan_closed s \<and> urlChan s = []"
    and "resultChan_closed s \<Longrightarrow>
           list_all (\<lambda>w. w = Returned) (workers s) \<and> main_at s \<noteq> Filling"
    and "main_at s = Collected \<Longrightarrow> resultChan_closed s \<and> resultChan s = []"
    and "\<not> panicked s"
  shows "invariant urls s"
  unfolding invariant_def using assms by (intro conjI impI) simp_all

lemma invariantD:
  assumes "invariant urls s"
  shows "capacity s = length urls"
    and "accounted s = mset urls"
    and "urlChan_closed s \<longleftrightarrow> main_at s \<noteq> Filling"
    and "main_at s \<noteq> Filling \<Longrightarrow> to_send s = []"
    and "Returned \<in> set (workers s) \<Longrightarrow> urlChan_closed s \<and> urlChan s = []"
    and "resultChan_closed s \<Longrightarrow>
           list_all (\<lambda>w. w = Returned) (workers s) \<and> main_at s \<noteq> Filling"
    and "main_at s = Collected \<Longrightarrow> resultChan_closed s \<and> resultChan s = []"
    and "\<not> panicked s"
  using assms unfolding invariant_def by (elim conjE; simp)+

lemma invariant_Main_send:
  assumes inv: "invariant urls s" and st: "step c Main_send s = Some s'"
  shows "invariant urls s'"
proof -
  from st obtain u us where ts: "to_send s = u # us" and f: "main_at s = Filling"
    and s': "s' = s\<lparr>to_send := us, urlChan := urlChan s @ [u]\<rparr>"
    by (auto simp: step_def split: if_splits list.splits)
  note d = invariantD [OF inv]
  from d(3) f have nc: "\<not> urlChan_closed s" by simp
  with d(5) have nr: "Returned \<notin> set (workers s)" by blast
  from d(6) f have no: "\<not> resultChan_closed s" by blast
  show ?thesis
  proof (rule invariantI)
    show "accounted s' = mset urls"
      using d(2) by (simp add: s' accounted_def ts)
  qed (use d f nc nr no in \<open>simp_all add: s'\<close>)
qed

lemma invariant_Main_close:
  assumes inv: "invariant urls s" and st: "step c Main_close s = Some s'"
  shows "invariant urls s'"
proof -
  from st have ts: "to_send s = []" and f: "main_at s = Filling"
    and s': "s' = s\<lparr>urlChan_closed := True, main_at := Draining\<rparr>"
    by (auto simp: step_def split: if_splits)
  note d = invariantD [OF inv]
  from d(3) f have nc: "\<not> urlChan_closed s" by simp
  with d(5) have nr: "Returned \<notin> set (workers s)" by blast
  from d(6) f have no: "\<not> resultChan_closed s" by blast
  show ?thesis
  proof (rule invariantI)
    show "accounted s' = mset urls"
      using d(2) by (simp add: s' accounted_def)
  qed (use d f nc nr no ts in \<open>simp_all add: s'\<close>)
qed

lemma invariant_Worker_receive:
  assumes inv: "invariant urls s" and st: "step c (Worker_receive i get) s = Some s'"
  shows "invariant urls s'"
proof -
  from st obtain u q where i: "i < length (workers s)" and r: "workers s ! i = Receiving"
    and uq: "urlChan s = u # q"
    and s': "s' = s\<lparr>urlChan := q, workers := (workers s)[i := Sending (checkURL u get c)]\<rparr>"
    by (auto simp: step_def split: if_splits list.splits)
  note d = invariantD [OF inv]
  from d(5) uq have nr: "Returned \<notin> set (workers s)" by auto
  from d(6) i r have no: "\<not> resultChan_closed s"
    using all_Returned_nth [of "workers s" i] by auto
  from d(7) no have nc: "main_at s \<noteq> Collected" by blast
  have nr': "Returned \<notin> set ((workers s)[i := Sending (checkURL u get c)])"
    using nr Returned_update [of "Sending (checkURL u get c)" "workers s" i] by auto
  have "mset (in_flight ((workers s)[i := Sending (checkURL u get c)]))
          = mset (in_flight (workers s)) + {#u#}"
    using in_flight_update [OF i, of "Sending (checkURL u get c)"] r by simp
  then have acc: "accounted s' = accounted s"
    by (simp add: s' accounted_def uq)
  show ?thesis
  proof (rule invariantI)
    show "accounted s' = mset urls"
      using acc d(2) by simp
  qed (use d(1,3,4,8) nr' no nc in \<open>simp_all add: s'\<close>)
qed

lemma invariant_Worker_send:
  assumes inv: "invariant urls s" and st: "step c (Worker_send i) s = Some s'"
  shows "invariant urls s'"
proof -
  from st obtain r where i: "i < length (workers s)" and r: "workers s ! i = Sending r"
    by (auto simp: step_def split: if_splits worker.splits)
  note d = invariantD [OF inv]
  from d(6) i r have no: "\<not> resultChan_closed s"
    using all_Returned_nth [of "workers s" i] by auto
  from d(7) no have nc: "main_at s \<noteq> Collected" by blast
  from st i r no
  have s': "s' = s\<lparr>resultChan := resultChan s @ [r], workers := (workers s)[i := Receiving]\<rparr>"
    by (auto simp: step_def split: if_splits)
  have fl: "mset (in_flight ((workers s)[i := Receiving])) + {#URL r#}
              = mset (in_flight (workers s))"
    using in_flight_update [OF i, of Receiving] r by simp
  have acc: "accounted s' = accounted s"
    by (simp add: s' accounted_def flip: fl)
  have ret: "Returned \<in> set ((workers s)[i := Receiving]) \<Longrightarrow> Returned \<in> set (workers s)"
    using Returned_update [of Receiving "workers s" i] by simp
  show ?thesis
  proof (rule invariantI)
    show "accounted s' = mset urls"
      using acc d(2) by simp
    show "Returned \<in> set (workers s') \<Longrightarrow> urlChan_closed s' \<and> urlChan s' = []"
      using ret d(5) by (simp add: s')
  qed (use d(1,3,4,8) no nc in \<open>simp_all add: s'\<close>)
qed

lemma invariant_Worker_return:
  assumes inv: "invariant urls s" and st: "step c (Worker_return i) s = Some s'"
  shows "invariant urls s'"
proof -
  from st have i: "i < length (workers s)" and r: "workers s ! i = Receiving"
    and e: "urlChan s = []" "urlChan_closed s"
    and s': "s' = s\<lparr>workers := (workers s)[i := Returned]\<rparr>"
    by (auto simp: step_def split: if_splits)
  note d = invariantD [OF inv]
  from d(6) i r have no: "\<not> resultChan_closed s"
    using all_Returned_nth [of "workers s" i] by auto
  from d(7) no have nc: "main_at s \<noteq> Collected" by blast
  have "mset (in_flight ((workers s)[i := Returned])) = mset (in_flight (workers s))"
    using in_flight_update [OF i, of Returned] r by simp
  then have acc: "accounted s' = accounted s"
    by (simp add: s' accounted_def)
  show ?thesis
  proof (rule invariantI)
    show "accounted s' = mset urls"
      using acc d(2) by simp
  qed (use d(1,3,4,8) no nc e in \<open>simp_all add: s'\<close>)
qed

lemma invariant_Closer_close:
  assumes inv: "invariant urls s" and st: "step c Closer_close s = Some s'"
  shows "invariant urls s'"
proof -
  from st have m: "main_at s = Draining"
    and all: "list_all (\<lambda>w. w = Returned) (workers s)"
    and s': "s' = s\<lparr>resultChan_closed := True\<rparr>"
    by (auto simp: step_def split: if_splits)
  note d = invariantD [OF inv]
  show ?thesis
  proof (rule invariantI)
    show "accounted s' = mset urls"
      using d(2) by (simp add: s' accounted_def)
    show "Returned \<in> set (workers s') \<Longrightarrow> urlChan_closed s' \<and> urlChan s' = []"
      using d(5) by (simp add: s')
  qed (use d(1,3,4,8) m all in \<open>simp_all add: s'\<close>)
qed

lemma invariant_Main_collect:
  assumes inv: "invariant urls s" and st: "step c Main_collect s = Some s'"
  shows "invariant urls s'"
proof -
  from st obtain r q where m: "main_at s = Draining" and rq: "resultChan s = r # q"
    and s': "s' = s\<lparr>resultChan := q, results := results s @ [r]\<rparr>"
    by (auto simp: step_def split: if_splits list.splits)
  note d = invariantD [OF inv]
  show ?thesis
  proof (rule invariantI)
    show "accounted s' = mset urls"
      using d(2) by (simp add: s' accounted_def rq)
    show "Returned \<in> set (workers s') \<Longrightarrow> urlChan_closed s' \<and> urlChan s' = []"
      using d(5) by (simp add: s')
    show "resultChan_closed s' \<Longrightarrow>
           list_all (\<lambda>w. w = Returned) (workers s') \<and> main_at s' \<noteq> Filling"
      using d(6) by (simp add: s')
  qed (use d(1,3,4,8) m in \<open>simp_all add: s'\<close>)
qed

lemma invariant_Main_finish:
  assumes inv: "invariant urls s" and st: "step c Main_finish s = Some s'"
  shows "invariant urls s'"
proof -
  from st have m: "main_at s = Draining" and e: "resultChan s = []" "resultChan_closed s"
    and s': "s' = s\<lparr>main_at := Collected\<rparr>"
    by (auto simp: step_def split: if_splits)
  note d = invariantD [OF inv]
  show ?thesis
  proof (rule invariantI)
    show "accounted s' = mset urls"
      using d(2) by (simp add: s' accounted_def)
    show "Returned \<in> set (workers s') \<Longrightarrow> urlChan_closed s' \<and> urlChan s' = []"
      using d(5) by (simp add: s')
    show "resultChan_closed s' \<Longrightarrow>
           list_all (\<lambda>w. w = Returned) (workers s') \<and> main_at s' \<noteq> Filling"
      using d(6) by (simp add: s')
  qed (use d(1,3,4,8) m e in \<open>simp_all add: s'\<close>)
qed

lemma step_invariant:
  assumes "invariant urls s" and "step c a s = Some s'"
  shows "invariant urls s'"
proof (cases a)
  case Main_send
  with assms show ?thesis by (blast intro: invariant_Main_send)
next
  case Main_close
  with assms show ?thesis by (blast intro: invariant_Main_close)
next
  case (Worker_receive i get)
  with assms show ?thesis by (blast intro: invariant_Worker_receive)
next
  case (Worker_send i)
  with assms show ?thesis by (blast intro: invariant_Worker_send)
next
  case (Worker_return i)
  with assms show ?thesis by (blast intro: invariant_Worker_return)
next
  case Closer_close
  with assms show ?thesis by (blast intro: invariant_Closer_close)
next
  case Main_collect
  with assms show ?thesis by (blast intro: invariant_Main_collect)
next
  case Main_finish
  with assms show ?thesis by (blast intro: invariant_Main_finish)
qed

lemma run_invariant:
  "invariant urls s \<Longrightarrow> run c sched s = Some s' \<Longrightarrow> invariant urls s'"
proof (induction sched arbitrary: s)
  case Nil
  then show ?case by simp
next
  case (Cons a sched)
  from Cons.prems(2) obtain t where t: "step c a s = Some t" and r: "run c sched t = Some s'"
    by (auto split: option.splits)
  from Cons.prems(1) t have "invariant urls t"
    by (rule step_invariant)
  then show ?case
    using r by (rule Cons.IH)
qed

lemma in_flight_all_Returned:
  "list_all (\<lambda>w. w = Returned) ws \<Longrightarrow> in_flight ws = []"
  by (induction ws) (auto simp: in_flight_def)

lemma invariant_Collected:
  assumes "invariant urls s" and "main_at s = Collected" and "workers s \<noteq> []"
  shows "mset (map URL (results s)) = mset urls"
proof -
  note d = invariantD [OF assms(1)]
  from d(7) assms(2) have e: "resultChan_closed s" "resultChan s = []" by simp_all
  from d(6) e have all: "list_all (\<lambda>w. w = Returned) (workers s)" by simp
  from d(4) assms(2) have ts: "to_send s = []" by simp
  from all assms(3) have "Returned \<in> set (workers s)"
    by (cases "workers s") auto
  with d(5) have "urlChan s = []" by simp
  with d(2) all e ts show ?thesis
    by (simp add: accounted_def in_flight_all_Returned)
qed

lemma size_accounted:
  "size (accounted s) =
     length (to_send s) + length (urlChan s) + length (in_flight (workers s))
     + length (resultChan s) + length (results s)"
  by (simp add: accounted_def)

lemma in_flight_Sending:
  "i < length ws \<Longrightarrow> ws ! i = Sending r \<Longrightarrow> 0 < length (in_flight ws)"
  unfolding in_flight_def
  by (induction ws arbitrary: i) (auto split: nat.splits simp: nth_Cons)

lemma invariant_room:
  assumes "invariant urls s"
  shows "length (to_send s) + length (urlChan s) + length (in_flight (workers s))
     + length (resultChan s) + length (results s) = capacity s"
proof -
  note d = invariantD [OF assms]
  have "size (accounted s) = size (mset urls)"
    using d(2) by simp
  then show ?thesis
    using d(1) by (simp add: size_accounted)
qed

lemma progress:
  assumes inv: "invariant urls s" and nc: "main_at s \<noteq> Collected"
  shows "\<exists>a s'. step c a s = Some s'"
proof -
  note d = invariantD [OF inv]
  note room = invariant_room [OF inv]
  show ?thesis
  proof (cases "main_at s")
    case Filling
    show ?thesis
    proof (cases "to_send s")
      case Nil
      with Filling d(8) have "step c Main_close s \<noteq> None"
        by (simp add: step_def)
      then show ?thesis by blast
    next
      case (Cons u us)
      then have "0 < length (to_send s)"
        by simp
      with room have "length (urlChan s) < capacity s"
        by linarith
      with Cons Filling d(8) have "step c Main_send s \<noteq> None"
        by (simp add: step_def)
      then show ?thesis by blast
    qed
  next
    case Draining
    with d(3) have closed: "urlChan_closed s" by simp
    show ?thesis
    proof (cases "resultChan s")
      case (Cons r q)
      with Draining d(8) have "step c Main_collect s \<noteq> None"
        by (simp add: step_def)
      then show ?thesis by blast
    next
      case Nil
      show ?thesis
      proof (cases "resultChan_closed s")
        case True
        with Nil Draining d(8) have "step c Main_finish s \<noteq> None"
          by (simp add: step_def)
        then show ?thesis by blast
      next
        case op: False
        show ?thesis
        proof (cases "list_all (\<lambda>w. w = Returned) (workers s)")
          case True
          with op Draining d(8) have "step c Closer_close s \<noteq> None"
            by (simp add: step_def)
          then show ?thesis by blast
        next
          case False
          then obtain i where i: "i < length (workers s)" and w: "workers s ! i \<noteq> Returned"
            by (auto simp: list_all_length)
          show ?thesis
          proof (cases "workers s ! i")
            case Receiving
            show ?thesis
            proof (cases "urlChan s")
              case Nil
              with Receiving i closed d(8) have "step c (Worker_return i) s \<noteq> None"
                by (simp add: step_def)
              then show ?thesis by blast
            next
              case (Cons u q)
              with Receiving i d(8)
              have "step c (Worker_receive i (GetErr [])) s \<noteq> None"
                by (simp add: step_def)
              then show ?thesis by blast
            qed
          next
            case (Sending r)
            have "0 < length (in_flight (workers s))"
              using i Sending by (rule in_flight_Sending)
            with room have "length (resultChan s) < capacity s"
              by linarith
            with Sending i op d(8) have "step c (Worker_send i) s \<noteq> None"
              by (simp add: step_def)
            then show ?thesis by blast
          next
            case Returned
            with w show ?thesis by simp
          qed
        qed
      qed
    qed
  next
    case Collected
    with nc show ?thesis by simp
  qed
qed

lemma completes:
  "invariant urls s \<Longrightarrow> \<exists>rest s'. run c rest s = Some s' \<and> main_at s' = Collected"
proof (induction "steps_left s" arbitrary: s rule: less_induct)
  case less
  show ?case
  proof (cases "main_at s = Collected")
    case True
    then have "run c [] s = Some s \<and> main_at s = Collected"
      by simp
    then show ?thesis by blast
  next
    case False
    with less.prems obtain a t where t: "step c a s = Some t"
      using progress by blast
    then have "steps_left t < steps_left s"
      by (simp add: step_steps_left)
    moreover have "invariant urls t"
      using less.prems t by (rule step_invariant)
    ultimately obtain rest s' where "run c rest t = Some s'" "main_at s' = Collected"
      using less.hyps by blast
    with t have "run c (a # rest) s = Some s' \<and> main_at s' = Collected"
      by simp
    then show ?thesis by blast
  qed
qed

lemma step_workers_length:
  "step c a s = Some s' \<Longrightarrow> length (workers s') = length (workers s)"
  by (cases a) (auto simp: step_def split: if_splits list.splits worker.splits)

lemma run_workers_length:
  "run c sched s = Some s' \<Longrightarrow> length (workers s') = length (workers s)"
  by (induction sched arbitrary: s) (auto split: option.splits dest: step_workers_length)

lemma steps_left_init:
  "steps_left (init_pipeline urls n) = 4 * length urls + nat n + 4"
proof -
  have "sum_list (map busy (replicate k Receiving)) = k" for k
    by (induction k) simp_all
  then show ?thesis
    by (simp add: steps_left_def init_pipeline_def)
qed

lemma step_no_workers:
  assumes "workers s = []" and "resultChan s = []" and "results s = []"
    and "step c a s = Some s'"
  shows "workers s' = [] \<and> resultChan s' = [] \<and> results s' = []"
  using assms by (cases a) (auto simp: step_def split: if_splits list.splits)

lemma run_no_workers:
  "workers s = [] \<Longrightarrow> resultChan s = [] \<Longrightarrow> results s = [] \<Longrightarrow>
     run c sched s = Some s' \<Longrightarrow>
     workers s' = [] \<and> resultChan s' = [] \<and> results s' = []"
proof (induction sched arbitrary: s)
  case Nil
  then show ?case by simp
next
  case (Cons a sched)
  from Cons.prems(4) obtain t where t: "step c a s = Some t" and r: "run c sched t = Some s'"
    by (auto split: option.splits)
  from step_no_workers [OF Cons.prems(1-3) t]
  have "workers t = []" "resultChan t = []" "results t = []"
    by simp_all
  then show ?case
    using r by (rule Cons.IH)
qed

text \<open>
  Claim C1, as stated: for every worker count the collected results are one per target. It
  fails for the worker count 0: no worker is started, \<open>wg.Wait()\<close> returns at once,
  \<open>resultChan\<close> is closed empty, and \<open>main\<close> leaves its loop with no result for the one
  target, which is still in \<open>urlChan\<close>.
\<close>

theorem pipeline_every_worker_count_counterexample:
  "run '''' [Main_send, Main_close, Closer_close, Main_finish] (init_pipeline [''https://a''] 0)
   = Some \<lparr>to_send = [], urlChan = [''https://a''], urlChan_closed = True,
       workers = [], resultChan = [], resultChan_closed = True,
       results = [], main_at = Collected, capacity = 1, panicked = False\<rparr>
   \<and> length ([] :: Result list) \<noteq> length [''https://a'']"
  by (simp add: init_pipeline_def step_def)

text \<open>
  Claim C1, amended: for every non-empty target list and every worker count of at least 1,
  whatever the schedule and whatever the network answers: when \<open>main\<close> has left its
  collecting loop, the targets of the collected results are the input targets, each as
  often as in the input (none is missing, none has a result too many); before that some
  action is always possible (no deadlock: no send waits for room and none meets a closed
  channel), the run can be brought to its end from every state, and no schedule is longer
  than \<open>4 * length urls + n + 3\<close> actions.
\<close>

theorem pipeline_one_result_per_target:
  assumes "urls \<noteq> []" and "0 < n" and "run c sched (init_pipeline urls n) = Some s"
  shows "(main_at s = Collected \<longrightarrow>
            mset (map URL (results s)) = mset urls \<and> length (results s) = length urls)
         \<and> (main_at s \<noteq> Collected \<longrightarrow> (\<exists>a s'. step c a s = Some s'))
         \<and> (\<exists>rest s'. run c rest s = Some s' \<and> main_at s' = Collected)
         \<and> length sched \<le> 4 * length urls + nat n + 3
         \<and> \<not> panicked s"
proof -
  have inv: "invariant urls s"
    using invariant_init assms(3) by (rule run_invariant)
  have "length (workers s) = nat n"
    using run_workers_length [OF assms(3)] by (simp add: init_pipeline_def)
  with assms(2) have w: "workers s \<noteq> []"
    by auto
  have np: "\<not> panicked s"
    using inv by (rule invariantD(8))
  have m: "main_at s = Collected \<longrightarrow> mset (map URL (results s)) = mset urls"
    using inv w by (blast intro: invariant_Collected)
  have "main_at s = Collected \<longrightarrow> length (results s) = length urls"
  proof
    assume "main_at s = Collected"
    with m have "size (mset (map URL (results s))) = size (mset urls)"
      by simp
    then show "length (results s) = length urls"
      by simp
  qed
  moreover have "main_at s \<noteq> Collected \<longrightarrow> (\<exists>a s'. step c a s = Some s')"
    using inv by (simp add: progress)
  moreover have "\<exists>rest s'. run c rest s = Some s' \<and> main_at s' = Collected"
    using inv by (rule completes)
  moreover have "length sched \<le> 4 * length urls + nat n + 3"
  proof -
    have "1 \<le> steps_left s"
      using np by (simp add: steps_left_def)
    moreover have "4 * length urls + nat n + 4 = length sched + steps_left s"
      using run_steps_left [OF assms(3)] by (simp add: steps_left_init)
    ultimately show ?thesis
      by linarith
  qed
  ultimately show ?thesis
    using m np by blast
qed

theorem pipeline_one_result_per_target_witness:
  "run ''ok''
     [Main_send, Worker_receive 1 (Resp 200 3 (Body ''ok'')), Main_send, Main_close,
      Worker_receive 0 (GetErr ''no such host''), Worker_send 0, Worker_return 0,
      Main_collect, Worker_send 1, Worker_return 1, Closer_close, Main_collect, Main_finish]
     (init_pipeline [''https://a'', ''https://b''] 2)
   = Some \<lparr>to_send = [], urlChan = [], urlChan_closed = True,
       workers = [Returned, Returned], resultChan = [], resultChan_closed = True,
       results = [checkURL ''https://b'' (GetErr ''no such host'') ''ok'',
                  checkURL ''https://a'' (Resp 200 3 (Body ''ok'')) ''ok''],
       main_at = Collected, capacity = 2, panicked = False\<rparr>
   \<and> mset (map URL [checkURL ''https://b'' (GetErr ''no such host'') ''ok'',
                     checkURL ''https://a'' (Resp 200 3 (Body ''ok'')) ''ok''])
       = mset [''https://a'', ''https://b'']"
proof -
  let ?sched = "[Main_send, Worker_receive 1 (Resp 200 3 (Body ''ok'')), Main_send, Main_close,
      Worker_receive 0 (GetErr ''no such host''), Worker_send 0, Worker_return 0,
      Main_collect, Worker_send 1, Worker_return 1, Closer_close, Main_collect, Main_finish]"
  let ?final = "\<lparr>to_send = [], urlChan = [], urlChan_closed = True,
       workers = [Returned, Returned], resultChan = [], resultChan_closed = True,
       results = [checkURL ''https://b'' (GetErr ''no such host'') ''ok'',
                  checkURL ''https://a'' (Resp 200 3 (Body ''ok'')) ''ok''],
       main_at = Collected, capacity = 2, panicked = False\<rparr>"
  have r: "run ''ok'' ?sched (init_pipeline [''https://a'', ''https://b''] 2) = Some ?final"
    by (simp add: init_pipeline_def step_def eval_nat_numeral)
  have "[''https://a'', ''https://b''] \<noteq> ([] :: string list)" and "(0::int) < 2"
    by simp_all
  from pipeline_one_result_per_target [OF this r] r show ?thesis
    by simp
qed

text \<open>
  Claim C9: with a worker count of 0 or less and a non-empty target list, nothing is ever
  received from \<open>urlChan\<close> (no target is checked), \<open>resultChan\<close> can be closed as soon as
  \<open>main\<close> is in its collecting loop, the run never deadlocks and ends after at most
  \<open>length urls + 3\<close> actions, and \<open>results\<close> is empty: \<open>printTable\<close> writes the heading
  and no data row.
\<close>

theorem pipeline_without_workers:
  assumes "n \<le> 0" and "urls \<noteq> []" and "run c sched (init_pipeline urls n) = Some s"
  shows "results s = [] \<and> resultChan s = []
         \<and> step c (Worker_receive i get) s = None
         \<and> (main_at s = Draining \<and> \<not> resultChan_closed s \<longrightarrow>
              step c Closer_close s \<noteq> None)
         \<and> (main_at s \<noteq> Collected \<longrightarrow> (\<exists>a s'. step c a s = Some s'))
         \<and> (\<exists>rest s'. run c rest s = Some s' \<and> main_at s' = Collected)
         \<and> length sched \<le> length urls + 3
         \<and> data_rows (results s) = []
         \<and> printTable (results s) show1 = table_header"
proof -
  have inv: "invariant urls s"
    using invariant_init assms(3) by (rule run_invariant)
  have np: "\<not> panicked s"
    using inv by (rule invariantD(8))
  from assms(1) have "workers (init_pipeline urls n) = []"
    "resultChan (init_pipeline urls n) = []" "results (init_pipeline urls n) = []"
    by (simp_all add: init_pipeline_def)
  from run_no_workers [OF this assms(3)]
  have e: "workers s = []" "resultChan s = []" "results s = []"
    by simp_all
  have nr: "step c (Worker_receive i get) s = None"
    using e by (simp add: step_def)
  have cl: "main_at s = Draining \<and> \<not> resultChan_closed s \<longrightarrow> step c Closer_close s \<noteq> None"
    using e np by (simp add: step_def)
  have pr: "main_at s \<noteq> Collected \<longrightarrow> (\<exists>a s'. step c a s = Some s')"
    using inv by (simp add: progress)
  have co: "\<exists>rest s'. run c rest s = Some s' \<and> main_at s' = Collected"
    using inv by (rule completes)
  have len: "length sched \<le> length urls + 3"
  proof -
    have "length (to_send s) + length (urlChan s) = length urls"
      using invariant_room [OF inv] invariantD(1) [OF inv] e by (simp add: in_flight_def)
    then have "3 * length urls + 1 \<le> steps_left s"
      using np by (simp add: steps_left_def)
    moreover have "4 * length urls + nat n + 4 = length sched + steps_left s"
      using run_steps_left [OF assms(3)] by (simp add: steps_left_init)
    ultimately show ?thesis
      using assms(1) by simp
  qed
  have "data_rows (results s) = []" "printTable (results s) show1 = table_header"
    using e by (simp_all add: data_rows_def printTable_def)
  with e nr cl pr co len show ?thesis
    by blast
qed

theorem pipeline_without_workers_witness:
  "run ''x'' [Main_send, Main_send, Main_close, Closer_close, Main_finish]
     (init_pipeline [''https://a'', ''https://b''] (- 2))
   = Some \<lparr>to_send = [], urlChan = [''https://a'', ''https://b''], urlChan_closed = True,
       workers = [], resultChan = [], resultChan_closed = True,
       results = [], main_at = Collected, capacity = 2, panicked = False\<rparr>
   \<and> printTable [] True = table_header"
proof -
  let ?final = "\<lparr>to_send = [], urlChan = [''https://a'', ''https://b''], urlChan_closed = True,
       workers = [], resultChan = [], resultChan_closed = True,
       results = [], main_at = Collected, capacity = 2, panicked = False\<rparr>"
  have r: "run ''x'' [Main_send, Main_send, Main_close, Closer_close, Main_finish]
     (init_pipeline [''https://a'', ''https://b''] (- 2)) = Some ?final"
    by (simp add: init_pipeline_def step_def)
  have "(- 2 :: int) \<le> 0" and "[''https://a'', ''https://b''] \<noteq> ([] :: string list)"
    by simp_all
  from pipeline_without_workers [OF this r, of 0 "GetErr []" True] r show ?thesis
    by simp
qed

end
